theory Spec2Isabelle
  imports Main "HOL-Library.Sublist"
begin

section \<open>Data model\<close>

text \<open>
  The graph engine of \<^verbatim>\<open>backend/kg_endpoints.py\<close> and its per-file twin
  \<^verbatim>\<open>backend/kg_file_endpoints.py\<close> works on \<^verbatim>\<open>networkx.Graph\<close> objects: undirected,
  at most one edge per pair of nodes, an attribute dictionary on every node and every edge.
  Attribute values are arbitrary Python values; the ones the code inspects are strings,
  \<^verbatim>\<open>None\<close>, booleans and integers. A string is a sequence of characters; nothing below
  depends on how text outside ASCII is encoded in it.
\<close>

datatype pyval = PNone | PBool bool | PInt int | PStr string

type_synonym attrs = "string \<rightharpoonup> pyval"

text \<open>
  \<open>node_tab\<close> is \<^verbatim>\<open>G.nodes(data=True)\<close> in iteration (insertion) order, \<open>edge_tab\<close> is
  \<^verbatim>\<open>G.edges(data=True)\<close> in edge-iteration order, each edge listed once.
\<close>

record graph =
  node_tab :: "(string \<times> attrs) list"
  edge_tab :: "(string \<times> string \<times> attrs) list"

datatype error = NotFound

definition node_ids :: "graph \<Rightarrow> string list" where
  "node_ids G = map fst (node_tab G)"

definition has_node :: "graph \<Rightarrow> string \<Rightarrow> bool" where
  "has_node G n \<longleftrightarrow> n \<in> set (node_ids G)"

definition number_of_nodes :: "graph \<Rightarrow> nat" where
  "number_of_nodes G = length (node_tab G)"

definition number_of_edges :: "graph \<Rightarrow> nat" where
  "number_of_edges G = length (edge_tab G)"

definition edge_ends :: "string \<times> string \<times> attrs \<Rightarrow> string set" where
  "edge_ends = (\<lambda>(u, v, d). {u, v})"

text \<open>What a \<^verbatim>\<open>networkx.Graph\<close> can hold: node ids are unique, every edge joins two
  nodes of the graph, and no pair of nodes is joined twice.\<close>

definition wf_graph :: "graph \<Rightarrow> bool" where
  "wf_graph G \<longleftrightarrow>
     distinct (node_ids G) \<and>
     list_all (\<lambda>(u, v, d). u \<in> set (node_ids G) \<and> v \<in> set (node_ids G)) (edge_tab G) \<and>
     distinct (map edge_ends (edge_tab G))"

text \<open>\<^verbatim>\<open>G.degree[n]\<close>: the number of edge ends at \<open>n\<close>; a self-loop counts twice.\<close>

definition degree :: "graph \<Rightarrow> string \<Rightarrow> nat" where
  "degree G n =
     sum_list (map (\<lambda>(u, v, d). (if u = n then 1 else 0) + (if v = n then 1 else 0)) (edge_tab G))"

text \<open>\<^verbatim>\<open>G.neighbors(u)\<close>: the other end of every edge at \<open>u\<close> (\<open>u\<close> itself for a self-loop).\<close>

definition neighbors :: "graph \<Rightarrow> string \<Rightarrow> string list" where
  "neighbors G n =
     concat (map (\<lambda>(u, v, d). (if u = n then [v] else []) @ (if v = n \<and> u \<noteq> n then [u] else []))
       (edge_tab G))"

text \<open>\<^verbatim>\<open>H.remove_nodes_from(ns)\<close>: the listed nodes go, and every edge at one of them.\<close>

definition remove_nodes_from :: "graph \<Rightarrow> string list \<Rightarrow> graph" where
  "remove_nodes_from H ns =
     \<lparr> node_tab = [(n, d) \<leftarrow> node_tab H. n \<notin> set ns],
       edge_tab = [(u, v, d) \<leftarrow> edge_tab H. u \<notin> set ns \<and> v \<notin> set ns] \<rparr>"

text \<open>\<^verbatim>\<open>G.subgraph(S).copy()\<close>: the subgraph induced on the nodes of \<open>S\<close> that are in
  \<open>G\<close>, with every edge of \<open>G\<close> whose two ends are kept.\<close>

definition subgraph :: "graph \<Rightarrow> string set \<Rightarrow> graph" where
  "subgraph G S =
     \<lparr> node_tab = [(n, d) \<leftarrow> node_tab G. n \<in> S],
       edge_tab = [(u, v, d) \<leftarrow> edge_tab G. u \<in> S \<and> v \<in> S] \<rparr>"

section \<open>Python values\<close>

definition digit_char :: "nat \<Rightarrow> char" where
  "digit_char k = ''0123456789'' ! k"

fun str_nat :: "nat \<Rightarrow> string" where
  "str_nat n = (if n < 10 then [digit_char n] else str_nat (n div 10) @ [digit_char (n mod 10)])"

declare str_nat.simps [simp del]

definition str_int :: "int \<Rightarrow> string" where
  "str_int i = (if i < 0 then CHR ''-'' # str_nat (nat (- i)) else str_nat (nat i))"

text \<open>\<^verbatim>\<open>str(x)\<close>.\<close>

fun py_str :: "pyval \<Rightarrow> string" where
  "py_str PNone = ''None''"
| "py_str (PBool b) = (if b then ''True'' else ''False'')"
| "py_str (PInt i) = str_int i"
| "py_str (PStr s) = s"

text \<open>Truth value of \<open>x\<close> in a condition, and \<^verbatim>\<open>a or b\<close>.\<close>

fun truthy :: "pyval \<Rightarrow> bool" where
  "truthy PNone = False"
| "truthy (PBool b) = b"
| "truthy (PInt i) = (i \<noteq> 0)"
| "truthy (PStr s) = (s \<noteq> [])"

definition py_or :: "pyval \<Rightarrow> pyval \<Rightarrow> pyval" where
  "py_or a b = (if truthy a then a else b)"

text \<open>\<^verbatim>\<open>d.get(k)\<close>, \<^verbatim>\<open>d.get(k, dflt)\<close> and \<^verbatim>\<open>d.setdefault(k, v)\<close>.\<close>

definition get_or :: "attrs \<Rightarrow> string \<Rightarrow> pyval \<Rightarrow> pyval" where
  "get_or d k dflt = (case d k of None \<Rightarrow> dflt | Some v \<Rightarrow> v)"

definition setdefault :: "attrs \<Rightarrow> string \<Rightarrow> pyval \<Rightarrow> attrs" where
  "setdefault d k v = (case d k of None \<Rightarrow> d(k \<mapsto> v) | Some w \<Rightarrow> d)"

text \<open>
  \<^verbatim>\<open>s.lower()\<close> is a function of the Python runtime, defined on all of Unicode. The
  model does not fix it: every operation that lower-cases takes the function as its
  parameter \<open>lower\<close>, and what is proved holds for every such function. \<open>ascii_lower\<close> is
  the instance used in the examples; it agrees with \<^verbatim>\<open>s.lower()\<close> on ASCII text, which is
  all the examples contain.
\<close>

definition ascii_lower_char :: "char \<Rightarrow> char" where
  "ascii_lower_char c =
     (case map_of (zip ''ABCDEFGHIJKLMNOPQRSTUVWXYZ'' ''abcdefghijklmnopqrstuvwxyz'') c of
        Some l \<Rightarrow> l
      | None \<Rightarrow> c)"

definition ascii_lower :: "string \<Rightarrow> string" where
  "ascii_lower s = map ascii_lower_char s"

text \<open>\<^verbatim>\<open>xs[i:j]\<close> for integer bounds: a negative bound counts from the end, and both are
  clipped to the list.\<close>

definition clip_index :: "nat \<Rightarrow> int \<Rightarrow> nat" where
  "clip_index n i = (if i < 0 then nat (max (i + int n) 0) else min (nat i) n)"

definition py_slice :: "'a list \<Rightarrow> int \<Rightarrow> int \<Rightarrow> 'a list" where
  "py_slice xs i j =
     (let lo = clip_index (length xs) i; hi = clip_index (length xs) j
      in take (hi - lo) (drop lo xs))"

section \<open>Node-link serializer\<close>

record node_link_graph =
  nodes :: "attrs list"
  edges :: "attrs list"

text \<open>
  \<^verbatim>\<open>json_graph.node_link_data\<close> gives one dictionary per node, the node's attributes with
  \<^verbatim>\<open>"id"\<close> set to the node, and one per edge, the edge's attributes with \<^verbatim>\<open>"source"\<close> and
  \<^verbatim>\<open>"target"\<close> set to its ends. \<^verbatim>\<open>_nx_to_node_link\<close> then fills in \<^verbatim>\<open>label\<close> and
  \<^verbatim>\<open>degree\<close> on nodes, \<^verbatim>\<open>id\<close> and \<^verbatim>\<open>label\<close> on edges, each with \<^verbatim>\<open>setdefault\<close>.
\<close>

definition node_record :: "graph \<Rightarrow> string \<times> attrs \<Rightarrow> attrs" where
  "node_record G = (\<lambda>(node_id, d).
     let n0 = d(''id'' \<mapsto> PStr node_id);
         n1 = setdefault n0 ''label'' (get_or n0 ''id'' PNone)
     in setdefault n1 ''degree''
          (PInt (if has_node G node_id then int (degree G node_id) else 0)))"

definition edge_record :: "nat \<Rightarrow> string \<times> string \<times> attrs \<Rightarrow> attrs" where
  "edge_record i = (\<lambda>(u, v, d).
     let e0 = d(''source'' \<mapsto> PStr u, ''target'' \<mapsto> PStr v);
         e1 = setdefault e0 ''id'' (PStr (''e'' @ str_nat i))
     in case e1 ''relation'' of
          Some r \<Rightarrow> setdefault e1 ''label'' r
        | None \<Rightarrow> e1)"

definition nx_to_node_link :: "graph \<Rightarrow> node_link_graph" where
  "nx_to_node_link G =
     \<lparr> nodes = map (node_record G) (node_tab G),
       edges = map (\<lambda>(i, e). edge_record i e) (enumerate 0 (edge_tab G)) \<rparr>"

text \<open>The ids of the serialized edges, in order.\<close>

definition edge_ids :: "node_link_graph \<Rightarrow> pyval option list" where
  "edge_ids nl = map (\<lambda>e. e ''id'') (edges nl)"

section \<open>Triplet projector\<close>

text \<open>One dictionary per edge: \<^verbatim>\<open>subject\<close>, \<^verbatim>\<open>relation\<close> and \<^verbatim>\<open>object\<close> first, then the
  edge's attributes other than \<^verbatim>\<open>relation\<close> and \<^verbatim>\<open>label\<close>; in a dictionary display a
  key written later replaces an earlier one.\<close>

definition triplet_row :: "string \<times> string \<times> attrs \<Rightarrow> attrs" where
  "triplet_row = (\<lambda>(u, v, d).
     [''subject'' \<mapsto> PStr u,
      ''relation'' \<mapsto> py_or (get_or d ''relation'' PNone) (get_or d ''label'' PNone),
      ''object'' \<mapsto> PStr v]
     ++ (\<lambda>k. if k \<in> {''relation'', ''label''} then None else d k))"

definition derive_triplets_from_edges :: "graph \<Rightarrow> attrs list" where
  "derive_triplets_from_edges G = map triplet_row (edge_tab G)"

record triplets_page =
  count :: int
  skip :: int
  limit :: int
  items :: "attrs list"

definition get_triplets :: "graph \<Rightarrow> int \<Rightarrow> int \<Rightarrow> triplets_page" where
  "get_triplets G sk lim =
     (let trips = derive_triplets_from_edges G
      in \<lparr> count = int (length trips), skip = sk, limit = lim,
           items = py_slice trips sk (sk + lim) \<rparr>)"

section \<open>Filter engine\<close>

text \<open>The three steps of \<^verbatim>\<open>_filtered_graph\<close>, in the order of the source. The list of
  nodes to remove is built in full, on the graph as it is, before any node goes. A query
  that is \<^verbatim>\<open>None\<close> or empty skips the substring step; \<open>label_text\<close> is
  \<^verbatim>\<open>str(d.get("label", ""))\<close> and \<open>sublist\<close> is the operator \<^verbatim>\<open>in\<close> on strings.\<close>

definition degree_step :: "graph \<Rightarrow> int \<Rightarrow> graph" where
  "degree_step H min_degree =
     (if min_degree > 0
      then remove_nodes_from H [n \<leftarrow> node_ids H. int (degree H n) < min_degree]
      else H)"

definition label_text :: "attrs \<Rightarrow> string" where
  "label_text d = py_str (get_or d ''label'' (PStr ''''))"

definition substring_step :: "(string \<Rightarrow> string) \<Rightarrow> graph \<Rightarrow> string option \<Rightarrow> graph" where
  "substring_step lower H q =
     (case q of
        None \<Rightarrow> H
      | Some s \<Rightarrow>
          if s \<noteq> []
          then remove_nodes_from H
                 (map fst [nd \<leftarrow> node_tab H.
                    \<not> sublist (lower s) (lower (fst nd)) \<and>
                    \<not> sublist (lower s) (lower (label_text (snd nd)))])
          else H)"

text \<open>
  \<^verbatim>\<open>nx.connected_components(H)\<close> walks the nodes in iteration order and, from every node
  not seen yet, collects its component breadth first, one level at a time, until a level
  adds nothing (the library also returns as soon as every node is seen, which gives the
  same set). \<open>verts\<close>, the ends of all edges, bounds what a level can add.
\<close>

definition nbrs :: "graph \<Rightarrow> string set \<Rightarrow> string set" where
  "nbrs G F = (\<Union>u\<in>F. set (neighbors G u))"

definition verts :: "graph \<Rightarrow> string set" where
  "verts G = \<Union> (edge_ends ` set (edge_tab G))"

function plain_bfs :: "graph \<Rightarrow> string set \<Rightarrow> string set \<Rightarrow> string set" where
  "plain_bfs G seen level =
     (let nxt = nbrs G level - seen
      in if nxt = {} then seen else plain_bfs G (seen \<union> nxt) nxt)"
  by pat_completeness auto

termination plain_bfs
proof (relation "measure (\<lambda>(G, seen, level). card (verts G - seen))")
  show "wf (measure (\<lambda>(G, seen, level). card (verts G - seen)))"
    by simp
next
  fix G :: graph and seen level nxt :: "string set"
  assume nxt: "nxt = nbrs G level - seen" and ne: "nxt \<noteq> {}"
  have fin: "finite (verts G)"
    unfolding verts_def by (rule finite_Union) (auto simp: edge_ends_def split: prod.splits)
  have "nbrs G level \<subseteq> verts G"
  proof
    fix w assume "w \<in> nbrs G level"
    then obtain u v d where e: "(u, v, d) \<in> set (edge_tab G)" and w: "w = u \<or> w = v"
      unfolding nbrs_def neighbors_def by (auto split: if_splits)
    from e have "edge_ends (u, v, d) \<subseteq> verts G"
      unfolding verts_def by blast
    with w show "w \<in> verts G"
      by (auto simp: edge_ends_def)
  qed
  with nxt have "nxt \<subseteq> verts G - seen"
    by blast
  with ne have "verts G - (seen \<union> nxt) \<subset> verts G - seen"
    by blast
  then have "card (verts G - (seen \<union> nxt)) < card (verts G - seen)"
    using fin by (intro psubset_card_mono) simp_all
  then show "((G, seen \<union> nxt, nxt), (G, seen, level))
               \<in> measure (\<lambda>(G, seen, level). card (verts G - seen))"
    by simp
qed

declare plain_bfs.simps [simp del]

fun cc_loop :: "graph \<Rightarrow> string list \<Rightarrow> string set \<Rightarrow> string set list" where
  "cc_loop G [] seen = []"
| "cc_loop G (v # vs) seen =
     (if v \<in> seen then cc_loop G vs seen
      else (let c = plain_bfs G {v} {v} in c # cc_loop G vs (seen \<union> c)))"

definition connected_components :: "graph \<Rightarrow> string set list" where
  "connected_components G = cc_loop G (node_ids G) {}"

text \<open>The greedy loop over the components, largest first: it stops at the first component
  that does not fit.\<close>

fun keep_loop :: "string set list \<Rightarrow> int \<Rightarrow> string set \<Rightarrow> string set" where
  "keep_loop [] max_nodes keep = keep"
| "keep_loop (c # cs) max_nodes keep =
     (if int (card keep) + int (card c) > max_nodes then keep
      else keep_loop cs max_nodes (keep \<union> c))"

text \<open>\<^verbatim>\<open>sorted(..., key=len, reverse=True)\<close> is stable: components of one size keep their
  order.\<close>

definition sorted_components :: "graph \<Rightarrow> string set list" where
  "sorted_components H = sort_key (\<lambda>c. - int (card c)) (connected_components H)"

definition downsample_step :: "graph \<Rightarrow> int \<Rightarrow> graph" where
  "downsample_step H max_nodes =
     (if int (number_of_nodes H) > max_nodes \<and> number_of_nodes H > 0
      then subgraph H (keep_loop (sorted_components H) max_nodes {})
      else H)"

definition filtered_graph ::
    "(string \<Rightarrow> string) \<Rightarrow> graph \<Rightarrow> string option \<Rightarrow> int \<Rightarrow> int \<Rightarrow> graph" where
  "filtered_graph lower G q min_degree max_nodes =
     downsample_step (substring_step lower (degree_step G min_degree) q) max_nodes"

section \<open>Ego-subgraph expander\<close>

text \<open>
  \<^verbatim>\<open>nodes\<close> and \<^verbatim>\<open>frontier\<close> are Python sets. The loop runs \<^verbatim>\<open>depth\<close> times at most and
  breaks once the visited set holds \<^verbatim>\<open>max_nodes\<close> nodes or more; the next frontier is the
  whole neighbourhood of the current one.
\<close>

fun ego_loop :: "nat \<Rightarrow> graph \<Rightarrow> int \<Rightarrow> string set \<Rightarrow> string set \<Rightarrow> string set" where
  "ego_loop 0 G max_nodes visited frontier = visited"
| "ego_loop (Suc k) G max_nodes visited frontier =
     (let nxt = nbrs G frontier; visited' = visited \<union> nxt
      in if int (card visited') \<ge> max_nodes then visited'
         else ego_loop k G max_nodes visited' nxt)"

definition ego_visited :: "graph \<Rightarrow> string \<Rightarrow> int \<Rightarrow> int \<Rightarrow> string set" where
  "ego_visited G center depth max_nodes = ego_loop (nat depth) G max_nodes {center} {center}"

text \<open>
  \<^verbatim>\<open>list(nodes)\<close> lists a set in the order of its hash table, which the program does not
  control: the order is a parameter \<open>set_iter\<close> of the model, and \<open>iter_ok\<close> says that it
  lists the set, every element once.
\<close>

definition iter_ok :: "(string set \<Rightarrow> string list) \<Rightarrow> string set \<Rightarrow> bool" where
  "iter_ok set_iter S \<longleftrightarrow> distinct (set_iter S) \<and> set (set_iter S) = S"

definition ego_subgraph ::
    "(string set \<Rightarrow> string list) \<Rightarrow> graph \<Rightarrow> string \<Rightarrow> int \<Rightarrow> int \<Rightarrow> error + graph" where
  "ego_subgraph set_iter G center depth max_nodes =
     (if \<not> has_node G center then Inl NotFound
      else Inr (subgraph G
             (set (py_slice (set_iter (ego_visited G center depth max_nodes)) 0 max_nodes))))"

text \<open>An iteration order given by a table of slots: the elements of the set, in the order
  of the table.\<close>

definition slot_order :: "string list \<Rightarrow> string set \<Rightarrow> string list" where
  "slot_order tbl S = [x \<leftarrow> tbl. x \<in> S]"

section \<open>Notions of the specification\<close>

text \<open>\<open>hops G c k v\<close>: a walk of \<open>k\<close> edges leads from \<open>c\<close> to \<open>v\<close>. The nodes within \<open>d\<close>
  hops of \<open>c\<close> are those at breadth-first distance at most \<open>d\<close>.\<close>

inductive hops :: "graph \<Rightarrow> string \<Rightarrow> nat \<Rightarrow> string \<Rightarrow> bool" for G c where
  hops_0: "hops G c 0 c"
| hops_Suc: "hops G c k u \<Longrightarrow> v \<in> set (neighbors G u) \<Longrightarrow> hops G c (Suc k) v"

definition within_hops :: "graph \<Rightarrow> string \<Rightarrow> nat \<Rightarrow> string set" where
  "within_hops G c d = {v. \<exists>k\<le>d. hops G c k v}"

text \<open>The connected component of \<open>v\<close>: every node a walk from \<open>v\<close> reaches.\<close>

definition adj_rel :: "graph \<Rightarrow> (string \<times> string) set" where
  "adj_rel G = {(u, v). v \<in> set (neighbors G u)}"

definition component_of :: "graph \<Rightarrow> string \<Rightarrow> string set" where
  "component_of G v = (adj_rel G)\<^sup>* `` {v}"



text \<open>The substring criterion of the specification, for a query \<open>ql\<close> already in lower
  case: \<open>ql\<close> occurs in the lower-cased id, or in the lower-cased text of the label, the
  empty string standing for a label that is absent. A node that the substring filter
  removes is a node of the graph that fails the criterion.\<close>

definition node_matches :: "(string \<Rightarrow> string) \<Rightarrow> string \<Rightarrow> string \<times> attrs \<Rightarrow> bool" where
  "node_matches lower ql = (\<lambda>(n, d). sublist ql (lower n) \<or> sublist ql (lower (label_text d)))"

definition unmatched :: "(string \<Rightarrow> string) \<Rightarrow> graph \<Rightarrow> string \<Rightarrow> string \<Rightarrow> bool" where
  "unmatched lower G ql n \<longleftrightarrow>
     list_ex (\<lambda>nd. fst nd = n \<and> \<not> node_matches lower ql nd) (node_tab G)"

text \<open>A node that the degree filter removes: a node of the graph whose degree, in the graph
  the step receives, is below the bound.\<close>

definition low_degree :: "graph \<Rightarrow> int \<Rightarrow> string \<Rightarrow> bool" where
  "low_degree G m n \<longleftrightarrow> n \<in> set (node_ids G) \<and> int (degree G n) < m"

section \<open>Example graphs\<close>

text \<open>The graph of the specification's scenarios 1 to 5: a path \<open>A - B - C - D\<close>, two of
  its edges with a relation.\<close>

definition scenario_graph :: graph where
  "scenario_graph =
     \<lparr> node_tab = [(''A'', Map.empty), (''B'', Map.empty), (''C'', Map.empty), (''D'', Map.empty)],
       edge_tab = [(''A'', ''B'', [''relation'' \<mapsto> PStr ''cites'']),
                   (''B'', ''C'', [''relation'' \<mapsto> PStr ''cites'']),
                   (''C'', ''D'', Map.empty)] \<rparr>"

text \<open>A graph whose records already carry keys the serializer would fill in: node \<open>A\<close>
  stores a degree, both edges store the same id, and the first edge stores a label next to
  its relation.\<close>

definition attr_graph :: graph where
  "attr_graph =
     \<lparr> node_tab = [(''A'', [''degree'' \<mapsto> PInt 7]), (''B'', Map.empty), (''C'', Map.empty)],
       edge_tab = [(''A'', ''B'', [''id'' \<mapsto> PStr ''x'', ''relation'' \<mapsto> PStr ''r'', ''label'' \<mapsto> PStr ''l'']),
                   (''B'', ''C'', [''id'' \<mapsto> PStr ''x''])] \<rparr>"

text \<open>A graph with one edge whose relation is the empty string and which has a label.\<close>

definition falsy_graph :: graph where
  "falsy_graph =
     \<lparr> node_tab = [(''A'', Map.empty), (''B'', Map.empty)],
       edge_tab = [(''A'', ''B'', [''relation'' \<mapsto> PStr '''', ''label'' \<mapsto> PStr ''x''])] \<rparr>"

text \<open>A path of four nodes, two of them with a label.\<close>

definition label_graph :: graph where
  "label_graph =
     \<lparr> node_tab = [(''Alpha'', Map.empty), (''n2'', [''label'' \<mapsto> PStr ''ALPHABET'']),
                   (''n3'', [''label'' \<mapsto> PStr ''beta'']), (''n4'', Map.empty)],
       edge_tab = [(''Alpha'', ''n2'', Map.empty), (''n2'', ''n3'', Map.empty),
                   (''n3'', ''n4'', Map.empty)] \<rparr>"

text \<open>The graph of scenario 6: two components, a star of five nodes and a star of three.\<close>

definition two_stars :: graph where
  "two_stars =
     \<lparr> node_tab = [(''p'', Map.empty), (''p1'', Map.empty), (''p2'', Map.empty),
                   (''p3'', Map.empty), (''p4'', Map.empty),
                   (''q'', Map.empty), (''q1'', Map.empty), (''q2'', Map.empty)],
       edge_tab = [(''p'', ''p1'', Map.empty), (''p'', ''p2'', Map.empty),
                   (''p'', ''p3'', Map.empty), (''p'', ''p4'', Map.empty),
                   (''q'', ''q1'', Map.empty), (''q'', ''q2'', Map.empty)] \<rparr>"

text \<open>An isolated node \<open>z\<close>, first in node order, and a path \<open>a - b - c\<close>.\<close>

definition lone_and_path :: graph where
  "lone_and_path =
     \<lparr> node_tab = [(''z'', Map.empty), (''a'', Map.empty), (''b'', Map.empty), (''c'', Map.empty)],
       edge_tab = [(''a'', ''b'', Map.empty), (''b'', ''c'', Map.empty)] \<rparr>"

section \<open>The filter pipeline\<close>

lemma degree_step_nodes:
  "node_tab (degree_step G m) = [(n, d) \<leftarrow> node_tab G. m \<le> int (degree G n)]"
proof (cases "m > 0")
  case True
  have "filter (\<lambda>(n, d). n \<notin> set [n \<leftarrow> node_ids G. int (degree G n) < m]) (node_tab G)
        = filter (\<lambda>(n, d). m \<le> int (degree G n)) (node_tab G)"
    by (rule filter_cong) (force simp: node_ids_def)+
  with True show ?thesis
    by (simp add: degree_step_def remove_nodes_from_def)
next
  case False
  then have "filter (\<lambda>(n, d). m \<le> int (degree G n)) (node_tab G) = node_tab G"
    by (intro filter_True) auto
  with False show ?thesis
    by (simp add: degree_step_def)
qed

lemma degree_step_edges:
  "edge_tab (degree_step G m) = [(u, v, d) \<leftarrow> edge_tab G. \<not> low_degree G m u \<and> \<not> low_degree G m v]"
proof (cases "m > 0")
  case True
  then show ?thesis
    by (simp add: degree_step_def remove_nodes_from_def low_degree_def)
next
  case False
  then have "\<And>n. \<not> low_degree G m n"
    by (simp add: low_degree_def)
  with False show ?thesis
    by (simp add: degree_step_def)
qed

text \<open>
  C7. For a bound \<open>m \<ge> 0\<close>, the degree step keeps exactly the nodes whose degree in the
  graph it receives is at least \<open>m\<close>; the degrees are all read before a node is removed.
  An edge stays exactly when neither of its ends is a removed node, and with \<open>m = 0\<close> the
  graph is returned as it is.
\<close>

theorem degree_step_correct:
  assumes "0 \<le> m"
  shows "node_tab (degree_step G m) = [(n, d) \<leftarrow> node_tab G. m \<le> int (degree G n)]
       \<and> edge_tab (degree_step G m)
           = [(u, v, d) \<leftarrow> edge_tab G. \<not> low_degree G m u \<and> \<not> low_degree G m v]
       \<and> degree_step G 0 = G"
  by (simp add: degree_step_nodes degree_step_edges) (simp add: degree_step_def)

theorem degree_step_correct_witness:
  "(0::int) \<le> 2 \<and> node_ids (degree_step scenario_graph 2) = [''B'', ''C'']
   \<and> map (\<lambda>(u, v, d). (u, v)) (edge_tab (degree_step scenario_graph 2)) = [(''B'', ''C'')]"
  using degree_step_correct [of 2 scenario_graph]
  by (simp add: scenario_graph_def node_ids_def degree_def low_degree_def)

text \<open>
  C9. With no query, a minimum degree of 0 and a node cap that is at least the number of
  nodes, every step of the pipeline is skipped: the result is the input graph, with the
  same nodes and the same edges.
\<close>

theorem filtered_noop:
  assumes "int (number_of_nodes G) \<le> max_nodes"
  shows "filtered_graph lower G None 0 max_nodes = G"
  using assms
  by (simp add: filtered_graph_def degree_step_def substring_step_def downsample_step_def)

theorem filtered_noop_witness:
  "int (number_of_nodes scenario_graph) \<le> 2000
   \<and> filtered_graph ascii_lower scenario_graph None 0 2000 = scenario_graph"
  using filtered_noop [of scenario_graph 2000 ascii_lower]
  by (simp add: scenario_graph_def number_of_nodes_def)

lemma substring_removed_set:
  "set (map fst [nd \<leftarrow> node_tab G.
          \<not> sublist ql (lower (fst nd)) \<and> \<not> sublist ql (lower (label_text (snd nd)))])
     = {n. unmatched lower G ql n}"
  by (auto simp: unmatched_def list_ex_iff node_matches_def split: prod.splits) force

text \<open>
  C6. For a non-empty query \<open>q\<close>, the substring step keeps exactly the nodes for which the
  lower-cased \<open>q\<close> occurs in the lower-cased node id or in the lower-cased label, an absent
  label counting as the empty string and not as the id; an edge stays exactly when neither
  of its ends is a removed node. This holds whatever the lower-casing function is, so for
  \<^verbatim>\<open>str.lower\<close> on any text.
\<close>

theorem substring_step_correct:
  assumes "q \<noteq> []" and "distinct (node_ids G)"
  shows "node_tab (substring_step lower G (Some q)) = filter (node_matches lower (lower q)) (node_tab G)
       \<and> edge_tab (substring_step lower G (Some q))
           = [(u, v, d) \<leftarrow> edge_tab G. \<not> unmatched lower G (lower q) u \<and> \<not> unmatched lower G (lower q) v]"
proof -
  let ?ns = "map fst [nd \<leftarrow> node_tab G.
          \<not> sublist (lower q) (lower (fst nd)) \<and> \<not> sublist (lower q) (lower (label_text (snd nd)))]"
  have step: "substring_step lower G (Some q) = remove_nodes_from G ?ns"
    using assms(1) by (simp add: substring_step_def)
  have rm: "set ?ns = {n. unmatched lower G (lower q) n}"
    by (rule substring_removed_set)
  have "filter (\<lambda>(n, d). n \<notin> set ?ns) (node_tab G) = filter (node_matches lower (lower q)) (node_tab G)"
  proof (rule filter_cong [OF refl])
    fix nd assume mem: "nd \<in> set (node_tab G)"
    obtain n d where nd: "nd = (n, d)"
      by (cases nd)
    have "unmatched lower G (lower q) n \<longleftrightarrow> \<not> node_matches lower (lower q) (n, d)"
    proof
      assume "unmatched lower G (lower q) n"
      then obtain d' where d': "(n, d') \<in> set (node_tab G)" and un: "\<not> node_matches lower (lower q) (n, d')"
        by (auto simp: unmatched_def list_ex_iff)
      from assms(2) d' mem nd have "d' = d"
        unfolding node_ids_def by (metis eq_key_imp_eq_value)
      with un show "\<not> node_matches lower (lower q) (n, d)"
        by simp
    next
      assume "\<not> node_matches lower (lower q) (n, d)"
      with mem nd show "unmatched lower G (lower q) n"
        by (force simp: unmatched_def list_ex_iff)
    qed
    with nd show "(case nd of (n, d) \<Rightarrow> n \<notin> set ?ns) = node_matches lower (lower q) nd"
      unfolding rm by simp
  qed
  then have nodes: "node_tab (substring_step lower G (Some q)) = filter (node_matches lower (lower q)) (node_tab G)"
    unfolding step remove_nodes_from_def by simp
  have edges: "edge_tab (substring_step lower G (Some q))
           = [(u, v, d) \<leftarrow> edge_tab G. \<not> unmatched lower G (lower q) u \<and> \<not> unmatched lower G (lower q) v]"
    unfolding step remove_nodes_from_def rm by simp
  from nodes edges show ?thesis ..
qed

theorem substring_step_correct_witness:
  "''aLp'' \<noteq> [] \<and> distinct (node_ids label_graph)
   \<and> node_ids (substring_step ascii_lower label_graph (Some ''aLp'')) = [''Alpha'', ''n2'']
   \<and> map fst (edge_tab (substring_step ascii_lower label_graph (Some ''aLp''))) = [''Alpha'']"
proof -
  have d: "distinct (node_ids label_graph)"
    by (simp add: label_graph_def node_ids_def)
  have ql: "ascii_lower ''aLp'' = ''alp''"
    by (simp add: ascii_lower_def ascii_lower_char_def)
  have m: "node_matches ascii_lower ''alp'' (''Alpha'', Map.empty)"
          "node_matches ascii_lower ''alp'' (''n2'', [''label'' \<mapsto> PStr ''ALPHABET''])"
          "\<not> node_matches ascii_lower ''alp'' (''n3'', [''label'' \<mapsto> PStr ''beta''])"
          "\<not> node_matches ascii_lower ''alp'' (''n4'', Map.empty)"
    by (simp_all add: node_matches_def ascii_lower_def ascii_lower_char_def label_text_def get_or_def
          sublist_code prefix_code)
  from substring_step_correct [of "''aLp''" label_graph ascii_lower] d
  have t: "node_tab (substring_step ascii_lower label_graph (Some ''aLp''))
             = filter (node_matches ascii_lower ''alp'') (node_tab label_graph)"
    "edge_tab (substring_step ascii_lower label_graph (Some ''aLp''))
           = [(u, v, d) \<leftarrow> edge_tab label_graph.
                \<not> unmatched ascii_lower label_graph ''alp'' u \<and> \<not> unmatched ascii_lower label_graph ''alp'' v]"
    by (simp_all add: ql)
  have n: "node_ids (substring_step ascii_lower label_graph (Some ''aLp'')) = [''Alpha'', ''n2'']"
    unfolding node_ids_def t by (simp add: label_graph_def m)
  have e: "map fst (edge_tab (substring_step ascii_lower label_graph (Some ''aLp''))) = [''Alpha'']"
    unfolding t by (simp add: label_graph_def unmatched_def m)
  from d n e show ?thesis
    by simp
qed

section \<open>The ego expander\<close>

text \<open>
  C8. The ego operation fails, with \<open>NotFound\<close>, exactly when the center is not a node of
  the graph; when the center is a node, it returns a graph, whatever the traversal finds.
\<close>

theorem ego_not_found_iff:
  "(ego_subgraph set_iter G center depth max_nodes = Inl NotFound) = (center \<notin> set (node_ids G))
   \<and> (\<exists>H. ego_subgraph set_iter G center depth max_nodes = Inr H) = (center \<in> set (node_ids G))"
  by (simp add: ego_subgraph_def has_node_def)

theorem ego_not_found_iff_witness:
  "ego_subgraph (slot_order [''A'', ''B'', ''C'', ''D'']) scenario_graph ''Z'' 1 10 = Inl NotFound
   \<and> (\<exists>H. ego_subgraph (slot_order [''A'', ''B'', ''C'', ''D'']) scenario_graph ''B'' 1 10 = Inr H)"
  using ego_not_found_iff [of "slot_order [''A'', ''B'', ''C'', ''D'']" scenario_graph "''Z''" 1 10]
        ego_not_found_iff [of "slot_order [''A'', ''B'', ''C'', ''D'']" scenario_graph "''B''" 1 10]
  by (simp add: scenario_graph_def node_ids_def)

section \<open>The serializer\<close>

lemma str_nat_nonempty: "str_nat n \<noteq> []"
  by (subst str_nat.simps) simp

lemma digit_char_inj: "a < 10 \<Longrightarrow> b < 10 \<Longrightarrow> digit_char a = digit_char b \<Longrightarrow> a = b"
  unfolding digit_char_def by (subst (asm) nth_eq_iff_index_eq) simp_all

lemma str_nat_inj: "str_nat n = str_nat m \<Longrightarrow> n = m"
proof (induction n arbitrary: m rule: str_nat.induct)
  case (1 n)
  show ?case
  proof (cases "n < 10")
    case n: True
    show ?thesis
    proof (cases "m < 10")
      case True
      with n "1.prems" show ?thesis
        by (simp add: str_nat.simps [of n] str_nat.simps [of m] digit_char_inj)
    next
      case False
      with n "1.prems" show ?thesis
        using str_nat_nonempty [of "m div 10"]
        by (simp add: str_nat.simps [of n] str_nat.simps [of m])
    qed
  next
    case n: False
    show ?thesis
    proof (cases "m < 10")
      case True
      with n "1.prems" show ?thesis
        using str_nat_nonempty [of "n div 10"]
        by (simp add: str_nat.simps [of n] str_nat.simps [of m])
    next
      case False
      with n "1.prems" have e: "str_nat (n div 10) = str_nat (m div 10)"
        and d: "digit_char (n mod 10) = digit_char (m mod 10)"
        by (simp_all add: str_nat.simps [of n] str_nat.simps [of m])
      from "1.IH" [OF n e] have "n div 10 = m div 10" .
      moreover from d have "n mod 10 = m mod 10"
        by (intro digit_char_inj) simp_all
      ultimately show ?thesis
        by (metis div_mult_mod_eq)
    qed
  qed
qed

lemma edge_record_id:
  "edge_record i (u, v, d) ''id'' = Some (case d ''id'' of Some x \<Rightarrow> x | None \<Rightarrow> PStr (''e'' @ str_nat i))"
  by (simp add: edge_record_def setdefault_def Let_def split: option.splits)

lemma edge_record_label:
  "edge_record i (u, v, d) ''label'' = (case d ''label'' of Some l \<Rightarrow> Some l | None \<Rightarrow> d ''relation'')"
  by (simp add: edge_record_def setdefault_def Let_def split: option.splits)

lemma node_record_degree:
  "has_node G n \<Longrightarrow>
   node_record G (n, d) ''degree'' = Some (case d ''degree'' of Some x \<Rightarrow> x | None \<Rightarrow> PInt (int (degree G n)))"
  by (simp add: node_record_def setdefault_def get_or_def Let_def split: option.splits)

lemma edges_nth:
  "i < length (edge_tab G) \<Longrightarrow> edges (nx_to_node_link G) ! i = edge_record i (edge_tab G ! i)"
  by (simp add: nx_to_node_link_def nth_enumerate_eq)

lemma nodes_nth:
  "i < length (node_tab G) \<Longrightarrow> nodes (nx_to_node_link G) ! i = node_record G (node_tab G ! i)"
  by (simp add: nx_to_node_link_def)

lemma edge_ids_fresh:
  assumes "\<forall>e \<in> set (edge_tab G). snd (snd e) ''id'' = None"
  shows "edge_ids (nx_to_node_link G)
           = map (\<lambda>i. Some (PStr (''e'' @ str_nat i))) [0..<number_of_edges G]"
proof (rule nth_equalityI)
  show "length (edge_ids (nx_to_node_link G))
          = length (map (\<lambda>i. Some (PStr (''e'' @ str_nat i))) [0..<number_of_edges G])"
    by (simp add: edge_ids_def nx_to_node_link_def number_of_edges_def)
next
  fix i assume "i < length (edge_ids (nx_to_node_link G))"
  then have i: "i < length (edge_tab G)"
    by (simp add: edge_ids_def nx_to_node_link_def)
  obtain u v d where e: "edge_tab G ! i = (u, v, d)"
    by (cases "edge_tab G ! i")
  with i assms have "d ''id'' = None"
    by (metis nth_mem snd_conv)
  with i e show "edge_ids (nx_to_node_link G) ! i
          = map (\<lambda>i. Some (PStr (''e'' @ str_nat i))) [0..<number_of_edges G] ! i"
    by (simp add: edge_ids_def nx_to_node_link_def number_of_edges_def nth_enumerate_eq edge_record_id)
qed

lemma distinct_fresh_ids: "distinct (map (\<lambda>i. Some (PStr (''e'' @ str_nat i))) [0..<n])"
  by (simp add: distinct_map inj_on_def str_nat_inj)

text \<open>
  C10. The serializer fills a key in only where the record does not have it. A node that
  stores a \<open>degree\<close> keeps the stored value, and gets the degree computed on the graph
  otherwise; an edge that stores an \<open>id\<close> keeps it, and gets \<open>e\<close> followed by its index
  otherwise; an edge that stores a \<open>label\<close> keeps it, and gets its relation, if it has
  one, otherwise.
\<close>

theorem serialize_keeps_stored:
  "(\<forall>i < length (node_tab G). case node_tab G ! i of (n, d) \<Rightarrow>
      (nodes (nx_to_node_link G) ! i) ''degree''
        = Some (case d ''degree'' of Some x \<Rightarrow> x | None \<Rightarrow> PInt (int (degree G n))))
   \<and> (\<forall>i < length (edge_tab G). case edge_tab G ! i of (u, v, d) \<Rightarrow>
      (edges (nx_to_node_link G) ! i) ''id''
        = Some (case d ''id'' of Some x \<Rightarrow> x | None \<Rightarrow> PStr (''e'' @ str_nat i))
      \<and> (edges (nx_to_node_link G) ! i) ''label''
        = (case d ''label'' of Some l \<Rightarrow> Some l | None \<Rightarrow> d ''relation''))"
proof (intro conjI allI impI)
  fix i assume i: "i < length (node_tab G)"
  obtain n d where nd: "node_tab G ! i = (n, d)"
    by (cases "node_tab G ! i")
  with i have "(n, d) \<in> set (node_tab G)"
    by (metis nth_mem)
  then have "has_node G n"
    by (force simp: has_node_def node_ids_def)
  with i nd show "case node_tab G ! i of (n, d) \<Rightarrow>
      (nodes (nx_to_node_link G) ! i) ''degree''
        = Some (case d ''degree'' of Some x \<Rightarrow> x | None \<Rightarrow> PInt (int (degree G n)))"
    by (simp add: nodes_nth node_record_degree)
next
  fix i assume i: "i < length (edge_tab G)"
  obtain u v d where e: "edge_tab G ! i = (u, v, d)"
    by (cases "edge_tab G ! i")
  with i show "case edge_tab G ! i of (u, v, d) \<Rightarrow>
      (edges (nx_to_node_link G) ! i) ''id''
        = Some (case d ''id'' of Some x \<Rightarrow> x | None \<Rightarrow> PStr (''e'' @ str_nat i))
      \<and> (edges (nx_to_node_link G) ! i) ''label''
        = (case d ''label'' of Some l \<Rightarrow> Some l | None \<Rightarrow> d ''relation'')"
    by (simp add: edges_nth edge_record_id edge_record_label)
qed

theorem serialize_keeps_stored_witness:
  "(nodes (nx_to_node_link attr_graph) ! 0) ''degree'' = Some (PInt 7)
   \<and> (nodes (nx_to_node_link attr_graph) ! 1) ''degree'' = Some (PInt 2)
   \<and> (edges (nx_to_node_link attr_graph) ! 0) ''id'' = Some (PStr ''x'')
   \<and> (edges (nx_to_node_link attr_graph) ! 0) ''label'' = Some (PStr ''l'')"
  using serialize_keeps_stored [of attr_graph, THEN conjunct1, rule_format, of 0]
        serialize_keeps_stored [of attr_graph, THEN conjunct1, rule_format, of 1]
        serialize_keeps_stored [of attr_graph, THEN conjunct2, rule_format, of 0]
  by (simp add: attr_graph_def degree_def)

text \<open>
  C5, as the specification states it, fails on a graph whose edges store an \<open>id\<close> or a
  \<open>label\<close>: in \<open>attr_graph\<close> both serialized edges have the id \<open>x\<close>, so the ids are
  neither unique nor \<open>e0\<close>, \<open>e1\<close>, and the first edge keeps its label \<open>l\<close> although its
  relation is \<open>r\<close>.
\<close>

theorem serialize_ids_counterexample:
  "(edges (nx_to_node_link attr_graph) ! 0) ''id'' = Some (PStr ''x'')
   \<and> (edges (nx_to_node_link attr_graph) ! 1) ''id'' = Some (PStr ''x'')
   \<and> \<not> distinct (edge_ids (nx_to_node_link attr_graph))
   \<and> edge_ids (nx_to_node_link attr_graph) \<noteq> [Some (PStr ''e0''), Some (PStr ''e1'')]
   \<and> snd (snd (edge_tab attr_graph ! 0)) ''relation'' = Some (PStr ''r'')
   \<and> (edges (nx_to_node_link attr_graph) ! 0) ''label'' = Some (PStr ''l'')"
  by (simp add: attr_graph_def nx_to_node_link_def edge_ids_def edge_record_def setdefault_def)

text \<open>
  C5, amended. The serializer emits one record per node and one per edge. An edge that
  stores no \<open>id\<close> gets the id \<open>e\<close> followed by its index in edge-iteration order, from 0;
  so when no edge stores an id, the ids are \<open>e0\<close>, \<open>e1\<close>, ... in order, and unique. An edge
  that stores no \<open>label\<close> gets its relation as label when it has one and no label
  otherwise: no other attribute is consulted.
\<close>

theorem serialize_totals:
  "length (nodes (nx_to_node_link G)) = number_of_nodes G
   \<and> length (edges (nx_to_node_link G)) = number_of_edges G
   \<and> (\<forall>i < number_of_edges G. case edge_tab G ! i of (u, v, d) \<Rightarrow>
        (d ''id'' = None \<longrightarrow>
           (edges (nx_to_node_link G) ! i) ''id'' = Some (PStr (''e'' @ str_nat i)))
      \<and> (d ''label'' = None \<longrightarrow>
           (edges (nx_to_node_link G) ! i) ''label'' = d ''relation''))
   \<and> ((\<forall>e \<in> set (edge_tab G). snd (snd e) ''id'' = None) \<longrightarrow>
        edge_ids (nx_to_node_link G)
          = map (\<lambda>i. Some (PStr (''e'' @ str_nat i))) [0..<number_of_edges G]
        \<and> distinct (edge_ids (nx_to_node_link G)))"
proof (intro conjI allI impI)
  show "length (nodes (nx_to_node_link G)) = number_of_nodes G"
    by (simp add: nx_to_node_link_def number_of_nodes_def)
  show "length (edges (nx_to_node_link G)) = number_of_edges G"
    by (simp add: nx_to_node_link_def number_of_edges_def)
next
  fix i assume "i < number_of_edges G"
  then have i: "i < length (edge_tab G)"
    by (simp add: number_of_edges_def)
  obtain u v d where e: "edge_tab G ! i = (u, v, d)"
    by (cases "edge_tab G ! i")
  with i show "case edge_tab G ! i of (u, v, d) \<Rightarrow>
        (d ''id'' = None \<longrightarrow>
           (edges (nx_to_node_link G) ! i) ''id'' = Some (PStr (''e'' @ str_nat i)))
      \<and> (d ''label'' = None \<longrightarrow>
           (edges (nx_to_node_link G) ! i) ''label'' = d ''relation'')"
    by (simp add: edges_nth edge_record_id edge_record_label)
next
  assume a: "\<forall>e \<in> set (edge_tab G). snd (snd e) ''id'' = None"
  then show "edge_ids (nx_to_node_link G)
          = map (\<lambda>i. Some (PStr (''e'' @ str_nat i))) [0..<number_of_edges G]"
    by (rule edge_ids_fresh)
  then show "distinct (edge_ids (nx_to_node_link G))"
    by (simp only: distinct_fresh_ids)
qed

theorem serialize_totals_witness:
  "length (nodes (nx_to_node_link scenario_graph)) = 4
   \<and> length (edges (nx_to_node_link scenario_graph)) = 3
   \<and> edge_ids (nx_to_node_link scenario_graph)
       = [Some (PStr ''e0''), Some (PStr ''e1''), Some (PStr ''e2'')]
   \<and> distinct (edge_ids (nx_to_node_link scenario_graph))
   \<and> (edges (nx_to_node_link scenario_graph) ! 1) ''label'' = Some (PStr ''cites'')"
proof -
  note t = serialize_totals [of scenario_graph]
  have n: "number_of_nodes scenario_graph = 4" "number_of_edges scenario_graph = 3"
    by (simp_all add: scenario_graph_def number_of_nodes_def number_of_edges_def)
  have fresh: "\<forall>e \<in> set (edge_tab scenario_graph). snd (snd e) ''id'' = None"
    by (simp add: scenario_graph_def)
  have e1: "edge_tab scenario_graph ! 1 = (''B'', ''C'', [''relation'' \<mapsto> PStr ''cites''])"
    by (simp add: scenario_graph_def)
  have up: "[0..<3] = [0, 1, 2::nat]"
    by (simp add: upt_rec)
  have s: "str_nat 0 = ''0''" "str_nat (Suc 0) = ''1''" "str_nat 2 = ''2''"
    by (simp_all add: str_nat.simps digit_char_def)
  from t n have "length (nodes (nx_to_node_link scenario_graph)) = 4"
    and "length (edges (nx_to_node_link scenario_graph)) = 3"
    by simp_all
  moreover from t fresh n have ids: "edge_ids (nx_to_node_link scenario_graph)
       = map (\<lambda>i. Some (PStr (''e'' @ str_nat i))) [0..<3]"
    by simp
  moreover from t fresh have "distinct (edge_ids (nx_to_node_link scenario_graph))"
    by blast
  moreover from t [THEN conjunct2, THEN conjunct2, THEN conjunct1, rule_format, of 1] n e1
  have "(edges (nx_to_node_link scenario_graph) ! 1) ''label'' = Some (PStr ''cites'')"
    by simp
  ultimately show ?thesis
    by (simp add: up s)
qed

section \<open>The triplet projector\<close>

lemma py_slice_page:
  assumes "0 \<le> sk" "0 \<le> lim"
  shows "py_slice xs sk (sk + lim) = take (nat lim) (drop (nat sk) xs)"
proof (cases "nat sk \<le> length xs")
  case True
  with assms have lo: "clip_index (length xs) sk = nat sk"
    by (simp add: clip_index_def)
  from assms have hi: "clip_index (length xs) (sk + lim) = min (nat sk + nat lim) (length xs)"
    by (simp add: clip_index_def nat_add_distrib)
  have "min (nat sk + nat lim) (length xs) - nat sk = min (nat lim) (length xs - nat sk)"
    using True by (simp add: min_def)
  then have "take (min (nat sk + nat lim) (length xs) - nat sk) (drop (nat sk) xs)
           = take (nat lim) (drop (nat sk) xs)"
    by (simp add: min_def)
  with lo hi show ?thesis
    by (simp add: py_slice_def)
next
  case False
  with assms have "clip_index (length xs) sk = length xs"
    by (simp add: clip_index_def)
  with False show ?thesis
    by (simp add: py_slice_def)
qed

lemma triplet_row_subject:
  "d ''subject'' = None \<Longrightarrow> triplet_row (u, v, d) ''subject'' = Some (PStr u)"
  by (simp add: triplet_row_def map_add_def)

lemma triplet_row_object:
  "d ''object'' = None \<Longrightarrow> triplet_row (u, v, d) ''object'' = Some (PStr v)"
  by (simp add: triplet_row_def map_add_def)

lemma triplet_row_relation:
  "triplet_row (u, v, d) ''relation''
     = Some (case d ''relation'' of
               Some r \<Rightarrow> if truthy r then r else get_or d ''label'' PNone
             | None \<Rightarrow> get_or d ''label'' PNone)"
  by (simp add: triplet_row_def map_add_def get_or_def py_or_def split: option.splits)

text \<open>
  C4, as the specification states it, fails in \<open>falsy_graph\<close>: the edge has a relation, the
  empty string, and yet the row's relation is the label \<open>x\<close>. The fallback is taken whenever
  the relation is false in a condition, not only when it is absent.
\<close>

theorem triplets_relation_counterexample:
  "snd (snd (edge_tab falsy_graph ! 0)) ''relation'' = Some (PStr '''')
   \<and> snd (snd (edge_tab falsy_graph ! 0)) ''label'' = Some (PStr ''x'')
   \<and> (derive_triplets_from_edges falsy_graph ! 0) ''relation'' = Some (PStr ''x'')"
  by (simp add: falsy_graph_def derive_triplets_from_edges_def triplet_row_def map_add_def
        get_or_def py_or_def)

text \<open>
  C4, amended. There is one row per edge, in edge order. The row's relation is the edge's
  relation attribute when that is present and true in a condition (not \<open>None\<close>, not empty,
  not zero), and otherwise the label attribute, \<open>None\<close> when there is none. For an edge
  that stores no attribute named \<open>subject\<close>, the row's subject is the first end of the
  edge; for an edge that stores no attribute named \<open>object\<close>, the row's object is the
  second end. For \<open>skip \<ge> 0\<close> and \<open>limit \<ge> 0\<close> the page has the count of all rows and the
  rows \<open>[skip, skip + limit)\<close>.
\<close>

theorem triplets_correct:
  "length (derive_triplets_from_edges G) = number_of_edges G
   \<and> (\<forall>i < number_of_edges G. case edge_tab G ! i of (u, v, d) \<Rightarrow>
        (d ''subject'' = None \<longrightarrow>
           (derive_triplets_from_edges G ! i) ''subject'' = Some (PStr u))
      \<and> (d ''object'' = None \<longrightarrow>
           (derive_triplets_from_edges G ! i) ''object'' = Some (PStr v))
      \<and> (derive_triplets_from_edges G ! i) ''relation''
          = Some (case d ''relation'' of
                    Some r \<Rightarrow> if truthy r then r else get_or d ''label'' PNone
                  | None \<Rightarrow> get_or d ''label'' PNone))
   \<and> (0 \<le> sk \<and> 0 \<le> lim \<longrightarrow>
        count (get_triplets G sk lim) = int (number_of_edges G)
      \<and> items (get_triplets G sk lim)
          = take (nat lim) (drop (nat sk) (derive_triplets_from_edges G)))"
proof (intro conjI allI impI)
  show "length (derive_triplets_from_edges G) = number_of_edges G"
    by (simp add: derive_triplets_from_edges_def number_of_edges_def)
next
  fix i assume "i < number_of_edges G"
  then have i: "i < length (edge_tab G)"
    by (simp add: number_of_edges_def)
  obtain u v d where e: "edge_tab G ! i = (u, v, d)"
    by (cases "edge_tab G ! i")
  with i show "case edge_tab G ! i of (u, v, d) \<Rightarrow>
        (d ''subject'' = None \<longrightarrow>
           (derive_triplets_from_edges G ! i) ''subject'' = Some (PStr u))
      \<and> (d ''object'' = None \<longrightarrow>
           (derive_triplets_from_edges G ! i) ''object'' = Some (PStr v))
      \<and> (derive_triplets_from_edges G ! i) ''relation''
          = Some (case d ''relation'' of
                    Some r \<Rightarrow> if truthy r then r else get_or d ''label'' PNone
                  | None \<Rightarrow> get_or d ''label'' PNone)"
    by (simp add: derive_triplets_from_edges_def triplet_row_subject triplet_row_object
          triplet_row_relation)
next
  assume "0 \<le> sk \<and> 0 \<le> lim"
  then show "count (get_triplets G sk lim) = int (number_of_edges G)"
    and "items (get_triplets G sk lim)
          = take (nat lim) (drop (nat sk) (derive_triplets_from_edges G))"
    by (simp_all add: get_triplets_def Let_def py_slice_page derive_triplets_from_edges_def
          number_of_edges_def)
qed

theorem triplets_correct_witness:
  "length (derive_triplets_from_edges scenario_graph) = 3
   \<and> (derive_triplets_from_edges scenario_graph ! 1) ''subject'' = Some (PStr ''B'')
   \<and> (derive_triplets_from_edges scenario_graph ! 1) ''relation'' = Some (PStr ''cites'')
   \<and> (derive_triplets_from_edges scenario_graph ! 1) ''object'' = Some (PStr ''C'')
   \<and> count (get_triplets scenario_graph 1 1) = 3
   \<and> items (get_triplets scenario_graph 1 1) = [derive_triplets_from_edges scenario_graph ! 1]"
proof -
  note t = triplets_correct [of scenario_graph 1 1]
  have n: "number_of_edges scenario_graph = 3"
    by (simp add: scenario_graph_def number_of_edges_def)
  have e1: "edge_tab scenario_graph ! 1 = (''B'', ''C'', [''relation'' \<mapsto> PStr ''cites''])"
    by (simp add: scenario_graph_def)
  from t n have len: "length (derive_triplets_from_edges scenario_graph) = 3"
    by simp
  from t [THEN conjunct2, THEN conjunct1, rule_format, of 1] n e1
  have row: "(derive_triplets_from_edges scenario_graph ! 1) ''subject'' = Some (PStr ''B'')"
    "(derive_triplets_from_edges scenario_graph ! 1) ''relation'' = Some (PStr ''cites'')"
    "(derive_triplets_from_edges scenario_graph ! 1) ''object'' = Some (PStr ''C'')"
    by simp_all
  from t n have page: "count (get_triplets scenario_graph 1 1) = 3"
    "items (get_triplets scenario_graph 1 1)
       = take (nat 1) (drop (nat 1) (derive_triplets_from_edges scenario_graph))"
    by simp_all
  have "take (nat 1) (drop (nat 1) (derive_triplets_from_edges scenario_graph))
          = [derive_triplets_from_edges scenario_graph ! 1]"
    by (simp add: derive_triplets_from_edges_def scenario_graph_def)
  with len row page show ?thesis
    by simp
qed

section \<open>Bounded traversal from a center\<close>

lemma set_neighbors:
  "set (neighbors G n)
     = {w. \<exists>u v d. (u, v, d) \<in> set (edge_tab G) \<and> ((u = n \<and> w = v) \<or> (v = n \<and> w = u))}"
  unfolding neighbors_def by (auto split: if_splits)

lemma neighbors_in_nodes:
  assumes "wf_graph G" and "w \<in> set (neighbors G n)"
  shows "w \<in> set (node_ids G)"
proof -
  from assms(2) obtain u v d where e: "(u, v, d) \<in> set (edge_tab G)" and w: "w = u \<or> w = v"
    unfolding set_neighbors by blast
  from assms(1) e have "u \<in> set (node_ids G) \<and> v \<in> set (node_ids G)"
    by (auto simp: wf_graph_def list_all_iff)
  with w show ?thesis
    by blast
qed

lemma nbrs_hops: "nbrs G {v. hops G c k v} = {v. hops G c (Suc k) v}"
proof (intro set_eqI iffI)
  fix v assume "v \<in> nbrs G {v. hops G c k v}"
  then obtain u where "hops G c k u" and "v \<in> set (neighbors G u)"
    by (auto simp: nbrs_def)
  then show "v \<in> {v. hops G c (Suc k) v}"
    by (auto intro: hops_Suc)
next
  fix v assume "v \<in> {v. hops G c (Suc k) v}"
  then have "hops G c (Suc k) v"
    by simp
  then obtain u where "hops G c k u" and "v \<in> set (neighbors G u)"
    by (cases rule: hops.cases) auto
  then show "v \<in> nbrs G {v. hops G c k v}"
    by (auto simp: nbrs_def)
qed

lemma hops_0_iff: "hops G c 0 v \<longleftrightarrow> v = c"
  by (auto intro: hops_0 elim: hops.cases)

lemma within_hops_0: "within_hops G c 0 = {c}"
  by (auto simp: within_hops_def hops_0_iff)

lemma within_hops_Suc: "within_hops G c (Suc k) = within_hops G c k \<union> {v. hops G c (Suc k) v}"
  by (auto simp: within_hops_def le_Suc_eq)


lemma hops_in_nodes:
  assumes "wf_graph G" and "c \<in> set (node_ids G)"
  shows "hops G c k v \<Longrightarrow> v \<in> set (node_ids G)"
  by (induction rule: hops.induct) (auto intro: assms neighbors_in_nodes)

lemma within_hops_nodes:
  assumes "wf_graph G" and "c \<in> set (node_ids G)"
  shows "within_hops G c k \<subseteq> set (node_ids G)"
  using hops_in_nodes [OF assms] by (auto simp: within_hops_def)


lemma ego_loop_no_cap:
  assumes "finite (within_hops G c (k + d))"
    and "int (card (ego_loop d G m (within_hops G c k) {v. hops G c k v})) < m"
  shows "ego_loop d G m (within_hops G c k) {v. hops G c k v} = within_hops G c (k + d)"
  using assms
proof (induction d arbitrary: k)
  case 0
  show ?case by simp
next
  case (Suc d)
  let ?W = "within_hops G c (Suc k)"
  show ?case
  proof (cases "m \<le> int (card ?W)")
    case True
    then have "ego_loop (Suc d) G m (within_hops G c k) {v. hops G c k v} = ?W"
      by (simp add: Let_def nbrs_hops within_hops_Suc [symmetric])
    with Suc.prems(2) True show ?thesis
      by simp
  next
    case False
    then have e: "ego_loop (Suc d) G m (within_hops G c k) {v. hops G c k v}
              = ego_loop d G m ?W {v. hops G c (Suc k) v}"
      by (simp add: Let_def nbrs_hops within_hops_Suc [symmetric])
    from Suc.prems(2) have small: "int (card (ego_loop d G m ?W {v. hops G c (Suc k) v})) < m"
      by (simp only: e)
    from Suc.prems(1) have "finite (within_hops G c (Suc k + d))"
      by simp
    then have "ego_loop d G m ?W {v. hops G c (Suc k) v} = within_hops G c (Suc k + d)"
      using small by (rule Suc.IH)
    with e show ?thesis
      by simp
  qed
qed


lemma ego_visited_no_cap:
  assumes "finite (within_hops G c (nat depth))"
    and "int (card (ego_visited G c depth m)) < m"
  shows "ego_visited G c depth m = within_hops G c (nat depth)"
  using ego_loop_no_cap [of G c 0 "nat depth" m] assms
  by (simp add: ego_visited_def within_hops_0 hops_0_iff)

lemma py_slice_all:
  assumes "int (length xs) < m"
  shows "py_slice xs 0 m = xs"
  using assms by (simp add: py_slice_def clip_index_def)


lemma length_node_filter:
  assumes "distinct (map fst nt)" and "S \<subseteq> set (map fst nt)"
  shows "length [(n, d) \<leftarrow> nt. n \<in> S] = card S"
proof -
  have "length [(n, d) \<leftarrow> nt. n \<in> S] = length (filter (\<lambda>n. n \<in> S) (map fst nt))"
    by (simp add: filter_map comp_def case_prod_unfold)
  also have "\<dots> = card (set (filter (\<lambda>n. n \<in> S) (map fst nt)))"
    using assms(1) by (intro distinct_card [symmetric] distinct_filter)
  also have "set (filter (\<lambda>n. n \<in> S) (map fst nt)) = S"
    using assms(2) by auto
  finally show ?thesis .
qed

lemma subgraph_node_ids:
  "S \<subseteq> set (node_ids G) \<Longrightarrow> set (node_ids (subgraph G S)) = S"
  by (force simp: subgraph_def node_ids_def)

lemma scenario_wf: "wf_graph scenario_graph"
  by (simp add: wf_graph_def scenario_graph_def node_ids_def edge_ends_def doubleton_eq_iff)

lemma scenario_visited: "ego_visited scenario_graph ''B'' 1 m = {''A'', ''B'', ''C''}"
proof -
  have "nbrs scenario_graph {''B''} = {''A'', ''C''}"
    by (simp add: nbrs_def neighbors_def scenario_graph_def)
  moreover have "nat 1 = Suc 0"
    by simp
  ultimately show ?thesis
    unfolding ego_visited_def by (auto simp: Let_def)
qed

lemma scenario_has_B: "has_node scenario_graph ''B''"
  by (simp add: has_node_def node_ids_def scenario_graph_def)

lemma scenario_iter_ok:
  "iter_ok (slot_order [''A'', ''B'', ''C'', ''D'']) (ego_visited scenario_graph ''B'' 1 m)"
  unfolding scenario_visited by (auto simp: iter_ok_def slot_order_def)

lemma scenario_iter:
  "slot_order [''A'', ''B'', ''C'', ''D''] (ego_visited scenario_graph ''B'' 1 m) = [''A'', ''B'', ''C'']"
  unfolding scenario_visited by (simp add: slot_order_def)

lemma scenario_ego:
  "ego_subgraph (slot_order [''A'', ''B'', ''C'', ''D'']) scenario_graph ''B'' 1 m
     = Inr (subgraph scenario_graph (set (py_slice [''A'', ''B'', ''C''] 0 m)))"
  using scenario_has_B by (simp only: ego_subgraph_def scenario_iter not_True_eq_False if_False)

text \<open>
  C3. If the visited set stays below \<open>max_nodes\<close> (the cap is never reached), the ego
  operation returns the subgraph induced on exactly the nodes within \<open>depth\<close> hops of the
  center, the center included: its nodes are those nodes of \<open>G\<close>, and its edges are all
  edges of \<open>G\<close> between two of them, whether the traversal used them or not.
\<close>

theorem ego_no_cap:
  assumes "wf_graph G" and "has_node G center"
    and "iter_ok set_iter (ego_visited G center depth max_nodes)"
    and "int (card (ego_visited G center depth max_nodes)) < max_nodes"
  shows "\<exists>H. ego_subgraph set_iter G center depth max_nodes = Inr H
           \<and> set (node_ids H) = within_hops G center (nat depth)
           \<and> node_tab H = [(n, d) \<leftarrow> node_tab G. n \<in> within_hops G center (nat depth)]
           \<and> edge_tab H = [(u, v, d) \<leftarrow> edge_tab G.
                             u \<in> within_hops G center (nat depth) \<and>
                             v \<in> within_hops G center (nat depth)]"
proof -
  let ?V = "ego_visited G center depth max_nodes"
  let ?W = "within_hops G center (nat depth)"
  from assms(1,2) have sub: "?W \<subseteq> set (node_ids G)"
    by (intro within_hops_nodes) (simp_all add: has_node_def)
  then have "finite ?W"
    by (rule finite_subset) simp
  with assms(4) have V: "?V = ?W"
    by (intro ego_visited_no_cap)
  from assms(3) have it: "distinct (set_iter ?V)" "set (set_iter ?V) = ?V"
    by (simp_all add: iter_ok_def)
  then have "length (set_iter ?V) = card ?V"
    by (metis distinct_card)
  with assms(4) have "py_slice (set_iter ?V) 0 max_nodes = set_iter ?V"
    by (intro py_slice_all) simp
  with it(2) V have keep: "set (py_slice (set_iter ?V) 0 max_nodes) = ?W"
    by simp
  from assms(2) have "ego_subgraph set_iter G center depth max_nodes = Inr (subgraph G ?W)"
    by (simp add: ego_subgraph_def keep)
  moreover from sub have "set (node_ids (subgraph G ?W)) = ?W"
    by (rule subgraph_node_ids)
  moreover have "node_tab (subgraph G ?W) = [(n, d) \<leftarrow> node_tab G. n \<in> ?W]"
    and "edge_tab (subgraph G ?W) = [(u, v, d) \<leftarrow> edge_tab G. u \<in> ?W \<and> v \<in> ?W]"
    by (simp_all add: subgraph_def)
  ultimately show ?thesis
    by blast
qed

theorem ego_no_cap_witness:
  "wf_graph scenario_graph \<and> has_node scenario_graph ''B''
   \<and> int (card (ego_visited scenario_graph ''B'' 1 10)) < 10
   \<and> (\<exists>H. ego_subgraph (slot_order [''A'', ''B'', ''C'', ''D'']) scenario_graph ''B'' 1 10 = Inr H
         \<and> set (node_ids H) = within_hops scenario_graph ''B'' (nat 1)
         \<and> node_ids H = [''A'', ''B'', ''C''])"
proof -
  have c: "int (card (ego_visited scenario_graph ''B'' 1 10)) < 10"
    unfolding scenario_visited by simp
  from ego_no_cap [OF scenario_wf scenario_has_B scenario_iter_ok c] obtain H
    where H: "ego_subgraph (slot_order [''A'', ''B'', ''C'', ''D'']) scenario_graph ''B'' 1 10 = Inr H"
      and ids: "set (node_ids H) = within_hops scenario_graph ''B'' (nat 1)"
    by blast
  have "py_slice [''A'', ''B'', ''C''] 0 10 = [''A'', ''B'', ''C'']"
    by (simp add: py_slice_def clip_index_def)
  with H have "H = subgraph scenario_graph {''A'', ''B'', ''C''}"
    by (simp add: scenario_ego)
  then have "node_ids H = [''A'', ''B'', ''C'']"
    by (simp add: subgraph_def node_ids_def scenario_graph_def)
  with scenario_wf scenario_has_B c H ids show ?thesis
    by blast
qed




section \<open>Component-bounded downsampling\<close>

lemma adj_rel_Image: "adj_rel G `` S = nbrs G S"
  by (auto simp: adj_rel_def nbrs_def)

lemma nbrs_Un: "nbrs G (A \<union> B) = nbrs G A \<union> nbrs G B"
  by (auto simp: nbrs_def)

lemma plain_bfs_closure:
  "level \<subseteq> seen \<Longrightarrow> nbrs G (seen - level) \<subseteq> seen \<Longrightarrow>
   plain_bfs G seen level = (adj_rel G)\<^sup>* `` seen"
proof (induction G seen level rule: plain_bfs.induct)
  case (1 G seen level)
  let ?nxt = "nbrs G level - seen"
  from "1.prems" have split: "seen = (seen - level) \<union> level"
    by blast
  have all: "nbrs G seen \<subseteq> seen \<union> ?nxt"
  proof -
    have "nbrs G seen = nbrs G (seen - level) \<union> nbrs G level"
      by (subst split) (rule nbrs_Un)
    with "1.prems"(2) show ?thesis
      by blast
  qed
  show ?case
  proof (cases "?nxt = {}")
    case True
    with all have "adj_rel G `` seen \<subseteq> seen"
      by (simp add: adj_rel_Image)
    then have "(adj_rel G)\<^sup>* `` seen = seen"
      by (rule Image_closed_trancl)
    moreover from True have "plain_bfs G seen level = seen"
      by (subst plain_bfs.simps) (simp add: Let_def)
    ultimately show ?thesis
      by simp
  next
    case False
    have "(seen \<union> ?nxt) - ?nxt = seen"
      by blast
    with all have inv: "nbrs G ((seen \<union> ?nxt) - ?nxt) \<subseteq> seen \<union> ?nxt"
      by simp
    have "plain_bfs G (seen \<union> ?nxt) ?nxt = (adj_rel G)\<^sup>* `` (seen \<union> ?nxt)"
    proof (rule "1.IH" [OF refl False])
      show "?nxt \<subseteq> seen \<union> ?nxt"
        by blast
      show "nbrs G ((seen \<union> ?nxt) - ?nxt) \<subseteq> seen \<union> ?nxt"
        by (rule inv)
    qed
    moreover from False have "plain_bfs G seen level = plain_bfs G (seen \<union> ?nxt) ?nxt"
      by (subst plain_bfs.simps) (simp add: Let_def)
    moreover have "(adj_rel G)\<^sup>* `` (seen \<union> ?nxt) = (adj_rel G)\<^sup>* `` seen"
    proof -
      have "?nxt \<subseteq> adj_rel G `` level"
        by (auto simp: adj_rel_Image)
      also from "1.prems"(1) have "\<dots> \<subseteq> (adj_rel G)\<^sup>* `` seen"
        by blast
      finally have "(adj_rel G)\<^sup>* `` ?nxt \<subseteq> (adj_rel G)\<^sup>* `` seen"
        by (blast intro: rtrancl_trans)
      then show ?thesis
        by blast
    qed
    ultimately show ?thesis
      by simp
  qed
qed

lemma plain_bfs_component: "plain_bfs G {v} {v} = component_of G v"
  unfolding component_of_def by (rule plain_bfs_closure) (simp_all add: nbrs_def)

lemma cc_loop_components:
  "c \<in> set (cc_loop G vs seen) \<Longrightarrow> \<exists>v \<in> set vs. c = component_of G v"
proof (induction vs arbitrary: seen)
  case Nil
  then show ?case by simp
next
  case (Cons v vs)
  then show ?case
    by (auto simp: Let_def plain_bfs_component split: if_splits)
qed

lemma connected_components_are_components:
  "c \<in> set (connected_components G) \<Longrightarrow> \<exists>v \<in> set (node_ids G). c = component_of G v"
  unfolding connected_components_def by (rule cc_loop_components)

lemma sorted_components_are_components:
  "c \<in> set (sorted_components G) \<Longrightarrow> \<exists>v \<in> set (node_ids G). c = component_of G v"
  unfolding sorted_components_def by (simp add: connected_components_are_components)

lemma sorted_components_descending:
  "sorted_wrt (\<lambda>a b. card b \<le> card a) (sorted_components G)"
proof -
  have "sorted (map (\<lambda>c. - int (card c)) (sorted_components G))"
    unfolding sorted_components_def by (rule sorted_sort_key)
  then show ?thesis
    by (simp add: sorted_wrt_map)
qed

lemma component_closed: "v \<in> component_of G u \<Longrightarrow> component_of G v \<subseteq> component_of G u"
  unfolding component_of_def by (auto intro: rtrancl_trans)

lemma component_in_nodes:
  assumes "wf_graph G" and "v \<in> set (node_ids G)"
  shows "component_of G v \<subseteq> set (node_ids G)"
proof
  fix w assume "w \<in> component_of G v"
  then have "(v, w) \<in> (adj_rel G)\<^sup>*"
    by (simp add: component_of_def)
  then show "w \<in> set (node_ids G)"
    by (induction rule: rtrancl_induct)
       (auto simp: adj_rel_def intro: assms neighbors_in_nodes)
qed

lemma adj_rel_sym: "sym (adj_rel G)"
  unfolding sym_def adj_rel_def set_neighbors by blast

lemma component_refl: "v \<in> component_of G v"
  by (simp add: component_of_def)

lemma component_eq:
  assumes "w \<in> component_of G v"
  shows "component_of G w = component_of G v"
proof
  show "component_of G w \<subseteq> component_of G v"
    using assms by (rule component_closed)
  from assms have "(v, w) \<in> (adj_rel G)\<^sup>*"
    by (simp add: component_of_def)
  then have "(w, v) \<in> (adj_rel G)\<^sup>*"
    using adj_rel_sym [of G] by (metis sym_rtrancl symD)
  then have "v \<in> component_of G w"
    by (simp add: component_of_def)
  then show "component_of G v \<subseteq> component_of G w"
    by (rule component_closed)
qed

lemma cc_loop_unseen:
  "c \<in> set (cc_loop G vs seen) \<Longrightarrow> \<exists>v \<in> set vs - seen. c = component_of G v"
proof (induction vs arbitrary: seen)
  case Nil
  then show ?case by simp
next
  case (Cons x vs)
  show ?case
  proof (cases "x \<in> seen")
    case True
    with Cons.prems have "c \<in> set (cc_loop G vs seen)"
      by simp
    from Cons.IH [OF this] show ?thesis
      by auto
  next
    case False
    with Cons.prems have "c = component_of G x \<or> c \<in> set (cc_loop G vs (seen \<union> component_of G x))"
      by (simp add: Let_def plain_bfs_component)
    then show ?thesis
    proof
      assume "c = component_of G x"
      with False show ?thesis
        by auto
    next
      assume "c \<in> set (cc_loop G vs (seen \<union> component_of G x))"
      from Cons.IH [OF this] show ?thesis
        by auto
    qed
  qed
qed

lemma cc_loop_covers:
  "v \<in> set vs \<Longrightarrow> v \<notin> seen \<Longrightarrow> component_of G v \<in> set (cc_loop G vs seen)"
proof (induction vs arbitrary: seen)
  case Nil
  then show ?case by simp
next
  case (Cons x vs)
  show ?case
  proof (cases "x \<in> seen")
    case True
    with Cons.prems have "v \<in> set vs"
      by auto
    from Cons.IH [OF this Cons.prems(2)] True show ?thesis
      by simp
  next
    case False
    then have step: "cc_loop G (x # vs) seen
        = component_of G x # cc_loop G vs (seen \<union> component_of G x)"
      by (simp add: Let_def plain_bfs_component)
    show ?thesis
    proof (cases "v \<in> component_of G x")
      case True
      then have "component_of G v = component_of G x"
        by (rule component_eq)
      with step show ?thesis
        by simp
    next
      case out: False
      then have "v \<noteq> x"
        using component_refl [of x G] by auto
      with Cons.prems(1) have "v \<in> set vs"
        by simp
      moreover from out Cons.prems(2) have "v \<notin> seen \<union> component_of G x"
        by simp
      ultimately have "component_of G v \<in> set (cc_loop G vs (seen \<union> component_of G x))"
        by (rule Cons.IH)
      with step show ?thesis
        by simp
    qed
  qed
qed

lemma cc_loop_distinct: "distinct (cc_loop G vs seen)"
proof (induction vs arbitrary: seen)
  case Nil
  show ?case by simp
next
  case (Cons x vs)
  show ?case
  proof (cases "x \<in> seen")
    case True
    with Cons.IH show ?thesis
      by simp
  next
    case False
    have "component_of G x \<notin> set (cc_loop G vs (seen \<union> component_of G x))"
    proof
      assume "component_of G x \<in> set (cc_loop G vs (seen \<union> component_of G x))"
      from cc_loop_unseen [OF this] obtain w
        where w: "w \<notin> seen \<union> component_of G x" and e: "component_of G x = component_of G w"
        by auto
      from e have "w \<in> component_of G x"
        using component_refl [of w G] by simp
      with w show False
        by simp
    qed
    with False Cons.IH show ?thesis
      by (simp add: Let_def plain_bfs_component)
  qed
qed

lemma connected_components_set:
  "set (connected_components G) = component_of G ` set (node_ids G)"
proof (intro set_eqI iffI)
  fix c assume "c \<in> set (connected_components G)"
  then show "c \<in> component_of G ` set (node_ids G)"
    unfolding connected_components_def by (auto dest: cc_loop_unseen)
next
  fix c assume "c \<in> component_of G ` set (node_ids G)"
  then obtain v where "v \<in> set (node_ids G)" and "c = component_of G v"
    by blast
  then show "c \<in> set (connected_components G)"
    unfolding connected_components_def by (simp add: cc_loop_covers)
qed

lemma sorted_components_set:
  "set (sorted_components G) = component_of G ` set (node_ids G)"
  unfolding sorted_components_def by (simp add: connected_components_set)

lemma sorted_components_distinct: "distinct (sorted_components G)"
  unfolding sorted_components_def connected_components_def by (simp add: cc_loop_distinct)

lemma sorted_components_cover:
  assumes "wf_graph G"
  shows "\<Union> (set (sorted_components G)) = set (node_ids G)"
proof
  show "\<Union> (set (sorted_components G)) \<subseteq> set (node_ids G)"
    unfolding sorted_components_set using component_in_nodes [OF assms] by blast
  show "set (node_ids G) \<subseteq> \<Union> (set (sorted_components G))"
    unfolding sorted_components_set using component_refl by blast
qed

lemma keep_loop_prefix:
  "\<exists>k \<le> length cs.
     keep_loop cs m keep = keep \<union> \<Union> (set (take k cs))
     \<and> (k = length cs \<or> m < int (card (keep \<union> \<Union> (set (take k cs)))) + int (card (cs ! k)))"
proof (induction cs arbitrary: keep)
  case Nil
  show ?case by simp
next
  case (Cons c cs)
  show ?case
  proof (cases "m < int (card keep) + int (card c)")
    case True
    then have "keep_loop (c # cs) m keep = keep \<union> \<Union> (set (take 0 (c # cs)))
        \<and> m < int (card (keep \<union> \<Union> (set (take 0 (c # cs))))) + int (card ((c # cs) ! 0))"
      by simp
    then show ?thesis
      by blast
  next
    case False
    from Cons [of "keep \<union> c"] obtain k where k: "k \<le> length cs"
      and e: "keep_loop cs m (keep \<union> c) = keep \<union> c \<union> \<Union> (set (take k cs))"
      and g: "k = length cs \<or> m < int (card (keep \<union> c \<union> \<Union> (set (take k cs)))) + int (card (cs ! k))"
      by blast
    have u: "keep \<union> c \<union> \<Union> (set (take k cs)) = keep \<union> \<Union> (set (take (Suc k) (c # cs)))"
      by auto
    from False e have "keep_loop (c # cs) m keep = keep \<union> \<Union> (set (take (Suc k) (c # cs)))"
      by (simp add: u)
    moreover from g have "Suc k = length (c # cs)
        \<or> m < int (card (keep \<union> \<Union> (set (take (Suc k) (c # cs))))) + int (card ((c # cs) ! Suc k))"
      unfolding u by simp
    moreover from k have "Suc k \<le> length (c # cs)"
      by simp
    ultimately show ?thesis
      by blast
  qed
qed

lemma keep_loop_card:
  "int (card keep) \<le> m \<Longrightarrow> int (card (keep_loop cs m keep)) \<le> m"
proof (induction cs arbitrary: keep)
  case Nil
  then show ?case by simp
next
  case (Cons c cs)
  show ?case
  proof (cases "m < int (card keep) + int (card c)")
    case True
    with Cons.prems show ?thesis by simp
  next
    case False
    have "card (keep \<union> c) \<le> card keep + card c"
      by (rule card_Un_le)
    with False have "int (card (keep \<union> c)) \<le> m"
      by linarith
    then have "int (card (keep_loop cs m (keep \<union> c))) \<le> m"
      by (rule Cons.IH)
    with False show ?thesis by simp
  qed
qed

lemma wf_remove_nodes_from:
  assumes "wf_graph G"
  shows "wf_graph (remove_nodes_from G ns)"
proof -
  let ?H = "remove_nodes_from G ns"
  have ids: "node_ids ?H = [n \<leftarrow> node_ids G. n \<notin> set ns]"
    by (simp add: remove_nodes_from_def node_ids_def filter_map comp_def case_prod_unfold)
  from assms have "distinct (node_ids ?H)"
    by (simp add: ids wf_graph_def)
  moreover have "list_all (\<lambda>(u, v, d). u \<in> set (node_ids ?H) \<and> v \<in> set (node_ids ?H)) (edge_tab ?H)"
    unfolding ids using assms
    by (auto simp: wf_graph_def list_all_iff remove_nodes_from_def)
  moreover from assms have "distinct (map edge_ends (edge_tab ?H))"
    by (simp add: wf_graph_def remove_nodes_from_def distinct_map_filter)
  ultimately show ?thesis
    by (simp add: wf_graph_def)
qed

lemma wf_degree_step: "wf_graph G \<Longrightarrow> wf_graph (degree_step G m)"
  by (simp add: degree_step_def wf_remove_nodes_from)

lemma wf_substring_step: "wf_graph G \<Longrightarrow> wf_graph (substring_step lower G q)"
  by (simp add: substring_step_def wf_remove_nodes_from split: option.splits)

lemma two_stars_wf: "wf_graph two_stars"
  by (simp add: wf_graph_def two_stars_def node_ids_def edge_ends_def doubleton_eq_iff)

lemma two_stars_nbrs:
  "nbrs two_stars {''p''} = {''p1'', ''p2'', ''p3'', ''p4''}"
  "nbrs two_stars {''p1'', ''p2'', ''p3'', ''p4''} = {''p''}"
  "nbrs two_stars {''q''} = {''q1'', ''q2''}"
  "nbrs two_stars {''q1'', ''q2''} = {''q''}"
  by (simp_all add: nbrs_def neighbors_def two_stars_def)

lemma two_stars_bfs:
  "plain_bfs two_stars {''p''} {''p''} = {''p'', ''p1'', ''p2'', ''p3'', ''p4''}"
  "plain_bfs two_stars {''q''} {''q''} = {''q'', ''q1'', ''q2''}"
proof -
  have "plain_bfs two_stars {''p''} {''p''}
          = plain_bfs two_stars {''p'', ''p1'', ''p2'', ''p3'', ''p4''} {''p1'', ''p2'', ''p3'', ''p4''}"
    by (subst plain_bfs.simps) (simp add: two_stars_nbrs Let_def insert_commute)
  also have "\<dots> = {''p'', ''p1'', ''p2'', ''p3'', ''p4''}"
    by (subst plain_bfs.simps) (simp add: two_stars_nbrs Let_def)
  finally show "plain_bfs two_stars {''p''} {''p''} = {''p'', ''p1'', ''p2'', ''p3'', ''p4''}" .
  have "plain_bfs two_stars {''q''} {''q''}
          = plain_bfs two_stars {''q'', ''q1'', ''q2''} {''q1'', ''q2''}"
    by (subst plain_bfs.simps) (simp add: two_stars_nbrs Let_def insert_commute)
  also have "\<dots> = {''q'', ''q1'', ''q2''}"
    by (subst plain_bfs.simps) (simp add: two_stars_nbrs Let_def)
  finally show "plain_bfs two_stars {''q''} {''q''} = {''q'', ''q1'', ''q2''}" .
qed

lemma two_stars_components:
  "sorted_components two_stars = [{''p'', ''p1'', ''p2'', ''p3'', ''p4''}, {''q'', ''q1'', ''q2''}]"
proof -
  have "node_ids two_stars = [''p'', ''p1'', ''p2'', ''p3'', ''p4'', ''q'', ''q1'', ''q2'']"
    by (simp add: node_ids_def two_stars_def)
  then have "connected_components two_stars
      = [{''p'', ''p1'', ''p2'', ''p3'', ''p4''}, {''q'', ''q1'', ''q2''}]"
    by (simp add: connected_components_def two_stars_bfs Let_def)
  then show ?thesis
    by (simp add: sorted_components_def)
qed

lemma two_stars_filtered:
  "node_ids (filtered_graph ascii_lower two_stars None 0 6) = [''p'', ''p1'', ''p2'', ''p3'', ''p4'']"
proof -
  have "number_of_nodes two_stars = 8"
    by (simp add: number_of_nodes_def two_stars_def)
  then have "filtered_graph ascii_lower two_stars None 0 6
      = subgraph two_stars (keep_loop (sorted_components two_stars) 6 {})"
    by (simp add: filtered_graph_def degree_step_def substring_step_def downsample_step_def)
  also have "keep_loop (sorted_components two_stars) 6 {} = {''p'', ''p1'', ''p2'', ''p3'', ''p4''}"
    by (simp add: two_stars_components)
  finally show ?thesis
    by (simp add: subgraph_def node_ids_def two_stars_def)
qed

lemma lone_and_path_nbrs:
  "nbrs lone_and_path {''z''} = {}"
  "nbrs lone_and_path {''a''} = {''b''}"
  "nbrs lone_and_path {''b''} = {''a'', ''c''}"
  "nbrs lone_and_path {''c''} = {''b''}"
  by (simp_all add: nbrs_def neighbors_def lone_and_path_def)

lemma lone_and_path_bfs:
  "plain_bfs lone_and_path {''z''} {''z''} = {''z''}"
  "plain_bfs lone_and_path {''a''} {''a''} = {''a'', ''b'', ''c''}"
proof -
  show "plain_bfs lone_and_path {''z''} {''z''} = {''z''}"
    by (subst plain_bfs.simps) (simp add: lone_and_path_nbrs Let_def)
  have "plain_bfs lone_and_path {''a''} {''a''} = plain_bfs lone_and_path {''a'', ''b''} {''b''}"
    by (subst plain_bfs.simps) (simp add: lone_and_path_nbrs Let_def insert_commute)
  also have "\<dots> = plain_bfs lone_and_path {''a'', ''b'', ''c''} {''c''}"
    by (subst plain_bfs.simps) (simp add: lone_and_path_nbrs Let_def insert_commute)
  also have "\<dots> = {''a'', ''b'', ''c''}"
    by (subst plain_bfs.simps) (simp add: lone_and_path_nbrs Let_def)
  finally show "plain_bfs lone_and_path {''a''} {''a''} = {''a'', ''b'', ''c''}" .
qed

lemma lone_and_path_components:
  "connected_components lone_and_path = [{''z''}, {''a'', ''b'', ''c''}]"
  "sorted_components lone_and_path = [{''a'', ''b'', ''c''}, {''z''}]"
proof -
  have "node_ids lone_and_path = [''z'', ''a'', ''b'', ''c'']"
    by (simp add: node_ids_def lone_and_path_def)
  then show c: "connected_components lone_and_path = [{''z''}, {''a'', ''b'', ''c''}]"
    by (simp add: connected_components_def lone_and_path_bfs Let_def)
  show "sorted_components lone_and_path = [{''a'', ''b'', ''c''}, {''z''}]"
    by (simp add: sorted_components_def c)
qed

text \<open>The largest component goes first, whatever the node order: with a cap of 3 the
  path is kept and the isolated node, although first in node order, is dropped.\<close>

lemma lone_and_path_filtered:
  "node_ids (filtered_graph lower lone_and_path None 0 3) = [''a'', ''b'', ''c'']"
proof -
  have "number_of_nodes lone_and_path = 4"
    by (simp add: number_of_nodes_def lone_and_path_def)
  then have "filtered_graph lower lone_and_path None 0 3
      = subgraph lone_and_path (keep_loop (sorted_components lone_and_path) 3 {})"
    by (simp add: filtered_graph_def degree_step_def substring_step_def downsample_step_def)
  also have "keep_loop (sorted_components lone_and_path) 3 {} = {''a'', ''b'', ''c''}"
    by (simp add: lone_and_path_components)
  finally show ?thesis
    by (simp add: subgraph_def node_ids_def lone_and_path_def)
qed

text \<open>
  C1. Let \<open>H\<close> be the graph after the degree and substring steps. If \<open>H\<close> has more than
  \<open>max_nodes\<close> nodes, with \<open>max_nodes \<ge> 1\<close>, the result is the subgraph of \<open>H\<close> induced on
  the union of the first \<open>k\<close> components in size-descending order, where \<open>k\<close> is where the
  greedy loop stops: all components are taken, or the next one would overflow. The list
  holds exactly the connected components of the nodes of \<open>H\<close>, each once, and they cover
  \<open>H\<close>; the result contains the whole component of each of its nodes, and has at most
  \<open>max_nodes\<close> nodes. In scenario 6 (components of 5 and 3 nodes, \<open>max_nodes = 6\<close>) it
  has 5 nodes, fewer than the cap.
\<close>

theorem downsample_whole_components:
  assumes "wf_graph G" and "1 \<le> max_nodes"
    and "H = substring_step lower (degree_step G min_degree) q"
    and "max_nodes < int (number_of_nodes H)"
  shows "\<exists>k \<le> length (sorted_components H).
           filtered_graph lower G q min_degree max_nodes
             = subgraph H (\<Union> (set (take k (sorted_components H))))
         \<and> set (node_ids (filtered_graph lower G q min_degree max_nodes))
             = \<Union> (set (take k (sorted_components H)))
         \<and> (k = length (sorted_components H)
              \<or> max_nodes < int (card (\<Union> (set (take k (sorted_components H)))))
                             + int (card (sorted_components H ! k)))
         \<and> set (sorted_components H) = component_of H ` set (node_ids H)
         \<and> distinct (sorted_components H)
         \<and> \<Union> (set (sorted_components H)) = set (node_ids H)
         \<and> sorted_wrt (\<lambda>a b. card b \<le> card a) (sorted_components H)
         \<and> (\<forall>v \<in> set (node_ids (filtered_graph lower G q min_degree max_nodes)).
               component_of H v \<subseteq> set (node_ids (filtered_graph lower G q min_degree max_nodes)))
         \<and> int (number_of_nodes (filtered_graph lower G q min_degree max_nodes)) \<le> max_nodes"
proof -
  let ?cs = "sorted_components H"
  let ?R = "filtered_graph lower G q min_degree max_nodes"
  from assms(1,3) have wfH: "wf_graph H"
    by (simp add: wf_degree_step wf_substring_step)
  from assms(2,3,4) have res: "?R = subgraph H (keep_loop ?cs max_nodes {})"
    by (simp add: filtered_graph_def downsample_step_def)
  from keep_loop_prefix [of ?cs max_nodes "{}"] obtain k where k: "k \<le> length ?cs"
    and keep: "keep_loop ?cs max_nodes {} = \<Union> (set (take k ?cs))"
    and greedy: "k = length ?cs \<or> max_nodes < int (card (\<Union> (set (take k ?cs)))) + int (card (?cs ! k))"
    by auto
  let ?K = "\<Union> (set (take k ?cs))"
  have comp: "\<exists>v \<in> set (node_ids H). c = component_of H v" if "c \<in> set ?cs" for c
    using that by (rule sorted_components_are_components)
  have taken: "\<exists>u \<in> set (node_ids H). c = component_of H u" if "c \<in> set (take k ?cs)" for c
    using that comp by (meson in_set_takeD)
  have Kn: "?K \<subseteq> set (node_ids H)"
  proof
    fix w assume "w \<in> ?K"
    then obtain c where c: "c \<in> set (take k ?cs)" and w: "w \<in> c"
      by blast
    from taken [OF c] obtain u where "u \<in> set (node_ids H)" and "c = component_of H u"
      by blast
    with w component_in_nodes [OF wfH] show "w \<in> set (node_ids H)"
      by blast
  qed
  then have ids: "set (node_ids (subgraph H ?K)) = ?K"
    by (rule subgraph_node_ids)
  have whole: "component_of H v \<subseteq> ?K" if "v \<in> ?K" for v
  proof -
    from that obtain c where c: "c \<in> set (take k ?cs)" and v: "v \<in> c"
      by blast
    from taken [OF c] obtain u where "c = component_of H u"
      by blast
    with v have "component_of H v \<subseteq> c"
      by (simp add: component_closed)
    with c show ?thesis
      by blast
  qed
  have "int (card (keep_loop ?cs max_nodes {})) \<le> max_nodes"
    using assms(2) by (intro keep_loop_card) simp
  then have cardK: "int (card ?K) \<le> max_nodes"
    by (simp only: keep)
  from wfH have "distinct (map fst (node_tab H))"
    by (simp add: wf_graph_def node_ids_def)
  moreover from Kn have "?K \<subseteq> set (map fst (node_tab H))"
    by (simp add: node_ids_def)
  ultimately have "length [(n, d) \<leftarrow> node_tab H. n \<in> ?K] = card ?K"
    by (rule length_node_filter)
  with cardK have size: "int (number_of_nodes (subgraph H ?K)) \<le> max_nodes"
    by (simp add: number_of_nodes_def subgraph_def)
  have R: "?R = subgraph H ?K"
    by (simp only: res keep)
  show ?thesis
  proof (intro exI [of _ k] conjI)
    show "k \<le> length ?cs" by (rule k)
    show "?R = subgraph H ?K" by (rule R)
    show "set (node_ids ?R) = ?K" by (simp only: R ids)
    show "k = length ?cs \<or> max_nodes < int (card ?K) + int (card (?cs ! k))" by (rule greedy)
    show "set ?cs = component_of H ` set (node_ids H)" by (rule sorted_components_set)
    show "distinct ?cs" by (rule sorted_components_distinct)
    show "\<Union> (set ?cs) = set (node_ids H)" using wfH by (rule sorted_components_cover)
    show "sorted_wrt (\<lambda>a b. card b \<le> card a) ?cs" by (rule sorted_components_descending)
    show "\<forall>v \<in> set (node_ids ?R). component_of H v \<subseteq> set (node_ids ?R)"
      using whole by (simp only: R ids) blast
    show "int (number_of_nodes ?R) \<le> max_nodes" using size by (simp only: R)
  qed
qed

theorem downsample_whole_components_witness:
  "wf_graph two_stars \<and> (1::int) \<le> 6 \<and> 6 < int (number_of_nodes two_stars)
   \<and> set (node_ids (filtered_graph ascii_lower two_stars None 0 6)) = \<Union> (set (take 1 (sorted_components two_stars)))
   \<and> component_of two_stars ''p1'' \<subseteq> set (node_ids (filtered_graph ascii_lower two_stars None 0 6))
   \<and> number_of_nodes (filtered_graph ascii_lower two_stars None 0 6) = 5"
proof -
  have H: "two_stars = substring_step ascii_lower (degree_step two_stars 0) None"
    by (simp add: degree_step_def substring_step_def)
  have n: "6 < int (number_of_nodes two_stars)"
    by (simp add: number_of_nodes_def two_stars_def)
  have m: "(1::int) \<le> 6"
    by simp
  note t = downsample_whole_components [OF two_stars_wf m H n]
  have ids: "node_ids (filtered_graph ascii_lower two_stars None 0 6) = [''p'', ''p1'', ''p2'', ''p3'', ''p4'']"
    by (rule two_stars_filtered)
  from t have "\<forall>v \<in> set (node_ids (filtered_graph ascii_lower two_stars None 0 6)).
      component_of two_stars v \<subseteq> set (node_ids (filtered_graph ascii_lower two_stars None 0 6))"
    by blast
  then have whole: "component_of two_stars ''p1'' \<subseteq> set (node_ids (filtered_graph ascii_lower two_stars None 0 6))"
    by (simp add: ids)
  have u: "set (node_ids (filtered_graph ascii_lower two_stars None 0 6)) = \<Union> (set (take 1 (sorted_components two_stars)))"
    by (simp add: ids two_stars_components insert_commute)
  have "number_of_nodes (filtered_graph ascii_lower two_stars None 0 6) = length (node_ids (filtered_graph ascii_lower two_stars None 0 6))"
    by (simp add: number_of_nodes_def node_ids_def)
  then have five: "number_of_nodes (filtered_graph ascii_lower two_stars None 0 6) = 5"
    by (simp add: ids)
  from two_stars_wf m n u whole five show ?thesis
    by blast
qed

end
